theory Spec2Isabelle
  imports Main "HOL-Library.Multiset"
begin

section \<open>Shared data model\<close>

text \<open>
  A \<^verbatim>\<open>time.Time\<close> is modelled by the instant it denotes, in nanoseconds since the Unix
  epoch. \<^verbatim>\<open>Before\<close> and \<^verbatim>\<open>After\<close> compare instants; monotonic clock readings and
  locations play no role for values that come from the wire or from \<^verbatim>\<open>time.Parse\<close>.
  A Go \<^verbatim>\<open>error\<close> is its message; \<^verbatim>\<open>nil\<close> is \<open>None\<close>. A slice that may be \<^verbatim>\<open>nil\<close> is a
  list option; ranging over a \<^verbatim>\<open>nil\<close> slice visits no element. A \<^verbatim>\<open>float64\<close> is a finite
  number, given by a significand and a binary exponent, or one of the three values that
  are not: no arithmetic is done on metrics, only whether a value is finite matters.
\<close>

type_synonym instant = int

type_synonym error = string

type_synonym 'a slice = "'a list option"

datatype float64 = Finite int int | NaN | PosInf | NegInf

definition Before :: "instant \<Rightarrow> instant \<Rightarrow> bool" where
  "Before t u = (t < u)"

definition After :: "instant \<Rightarrow> instant \<Rightarrow> bool" where
  "After t u = (u < t)"

definition elems :: "'a slice \<Rightarrow> 'a list" where
  "elems s = (case s of None \<Rightarrow> [] | Some xs \<Rightarrow> xs)"

text \<open>\<^verbatim>\<open>append(s, x)\<close>: appending to a \<^verbatim>\<open>nil\<close> slice allocates.\<close>

definition append_slice :: "'a slice \<Rightarrow> 'a \<Rightarrow> 'a slice" where
  "append_slice s x = Some (elems s @ [x])"

text \<open>\<^verbatim>\<open>internal/model/telemetry.go\<close>\<close>

record Telemetry =
  GPUId :: string
  Timestamp :: instant
  Metrics :: "string \<rightharpoonup> float64"

section \<open>In-memory store (\<^verbatim>\<open>internal/storage/memory.go\<close>)\<close>

text \<open>
  \<^verbatim>\<open>sort.SliceStable(s, less)\<close> is the library's stable sort. It is modelled by the stable
  insertion sort: an element is placed before the first element that the comparison puts strictly
  after it, so elements that the comparison does not separate keep their order.
\<close>

fun insert_stable :: "('a \<Rightarrow> 'a \<Rightarrow> bool) \<Rightarrow> 'a \<Rightarrow> 'a list \<Rightarrow> 'a list" where
  "insert_stable lt x [] = [x]"
| "insert_stable lt x (y # ys) =
     (if lt y x then y # insert_stable lt x ys else x # y # ys)"

definition SliceStable :: "('a \<Rightarrow> 'a \<Rightarrow> bool) \<Rightarrow> 'a list \<Rightarrow> 'a list" where
  "SliceStable lt xs = foldr (insert_stable lt) xs []"

text \<open>
  The \<^verbatim>\<open>data\<close> map is allocated by \<^verbatim>\<open>NewMemoryStore\<close>, the only place in the repository
  where a \<^verbatim>\<open>MemoryStore\<close> is built. The mutex serialises the methods, so each is one atomic
  state transformer.
\<close>

record MemoryStore =
  data :: "string \<rightharpoonup> Telemetry list"

definition NewMemoryStore :: MemoryStore where
  "NewMemoryStore = \<lparr>data = Map.empty\<rparr>"

text \<open>\<^verbatim>\<open>m.data[k]\<close>: a missing key reads as the empty (\<^verbatim>\<open>nil\<close>) slice.\<close>

definition lookup_data :: "MemoryStore \<Rightarrow> string \<Rightarrow> Telemetry list" where
  "lookup_data m k = (case data m k of None \<Rightarrow> [] | Some s \<Rightarrow> s)"

definition less_ts :: "Telemetry \<Rightarrow> Telemetry \<Rightarrow> bool" where
  "less_ts a b = Before (Timestamp a) (Timestamp b)"

definition SaveTelemetry :: "MemoryStore \<Rightarrow> Telemetry \<Rightarrow> error option \<times> MemoryStore" where
  "SaveTelemetry m t =
     (let s = lookup_data m (GPUId t);
          s = s @ [t];
          s = SliceStable less_ts s
      in (None, m\<lparr>data := (data m)(GPUId t \<mapsto> s)\<rparr>))"

fun query_loop ::
  "instant option \<Rightarrow> instant option \<Rightarrow> Telemetry list \<Rightarrow> Telemetry slice \<Rightarrow> Telemetry slice" where
  "query_loop start stop [] out = out"
| "query_loop start stop (it # s) out =
     (if (case start of None \<Rightarrow> False | Some t0 \<Rightarrow> Before (Timestamp it) t0)
        then query_loop start stop s out
      else if (case stop of None \<Rightarrow> False | Some t1 \<Rightarrow> After (Timestamp it) t1)
        then query_loop start stop s out
      else query_loop start stop s (append_slice out it))"

definition QueryTelemetry ::
  "MemoryStore \<Rightarrow> string \<Rightarrow> instant option \<Rightarrow> instant option \<Rightarrow> Telemetry slice \<times> error option" where
  "QueryTelemetry m gpuID start stop =
     (let s = lookup_data m gpuID in
      if start = None \<and> stop = None then (Some s, None)
      else (query_loop start stop s None, None))"

text \<open>A run of the store: \<^verbatim>\<open>NewMemoryStore\<close> followed by the given saves, in order.\<close>

definition save_all :: "MemoryStore \<Rightarrow> Telemetry list \<Rightarrow> MemoryStore" where
  "save_all m ts = foldl (\<lambda>m t. snd (SaveTelemetry m t)) m ts"

text \<open>The window of a query, in the words of the specification: both bounds inclusive,
  an absent bound unbounded.\<close>

definition in_window :: "instant option \<Rightarrow> instant option \<Rightarrow> Telemetry \<Rightarrow> bool" where
  "in_window start stop r =
     ((case start of None \<Rightarrow> True | Some t0 \<Rightarrow> t0 \<le> Timestamp r) \<and>
      (case stop of None \<Rightarrow> True | Some t1 \<Rightarrow> Timestamp r \<le> t1))"


section \<open>Channels\<close>

text \<open>
  A buffered Go channel is its buffer, oldest element first, and its capacity. The
  statement \<^verbatim>\<open>select { case c <- x: ... default: ... }\<close> is a send that never blocks: it
  appends when the buffer has room and takes the \<^verbatim>\<open>default\<close> branch otherwise.
\<close>

record 'a chan =
  buf :: "'a list"
  cap :: nat

definition make_chan :: "nat \<Rightarrow> 'a chan" where
  "make_chan n = \<lparr>buf = [], cap = n\<rparr>"

definition try_send :: "'a chan \<Rightarrow> 'a \<Rightarrow> 'a chan option" where
  "try_send c x = (if length (buf c) < cap c then Some (c\<lparr>buf := buf c @ [x]\<rparr>) else None)"

section \<open>Broker (\<^verbatim>\<open>internal/broker/broker.go\<close>)\<close>

text \<open>
  The broker never looks inside a record, so the payload type is a parameter \<open>'m\<close>; a
  \<^verbatim>\<open>*telemetryv1.TelemetryData\<close> is an \<open>'m option\<close>, \<open>None\<close> being the \<^verbatim>\<open>nil\<close> pointer. The
  Prometheus counters and the subscriber gauge are package variables; they are fields of
  the server state here. Log lines are left out. Each method below is one sequential run
  of the Go function on the state it finds.
\<close>

record 'm subscriber =
  id' :: string
  ch :: "'m option chan"

record 'm Server =
  subs :: "'m subscriber list"
  next' :: nat
  inbound :: "'m option chan"
  queueCap :: nat
  subBuf :: nat
  metricEnqueued :: nat
  metricDelivered :: nat
  metricBackpressure :: nat
  metricRequeued :: nat
  metricSubscribers :: nat

record 'm TelemetryBatch =
  Items :: "'m option list"

record PublishResponse =
  Accepted :: int
  Status :: string

definition NewServer :: "nat \<Rightarrow> nat \<Rightarrow> 'm Server" where
  "NewServer qc sb =
     \<lparr>subs = [], next' = 0, inbound = make_chan qc, queueCap = qc, subBuf = sb,
      metricEnqueued = 0, metricDelivered = 0, metricBackpressure = 0,
      metricRequeued = 0, metricSubscribers = 0\<rparr>"

text \<open>The \<^verbatim>\<open>for i := range req.Items\<close> loop of \<^verbatim>\<open>PublishBatch\<close>, with the running
  \<^verbatim>\<open>accepted\<close> count.\<close>

fun publish_loop :: "'m option list \<Rightarrow> nat \<Rightarrow> 'm Server \<Rightarrow> PublishResponse \<times> 'm Server" where
  "publish_loop [] accepted s = (\<lparr>Accepted = int accepted, Status = ''OK''\<rparr>, s)"
| "publish_loop (item # rest) accepted s =
     (case try_send (inbound s) item of
        Some q \<Rightarrow>
          publish_loop rest (accepted + 1)
            (s\<lparr>inbound := q, metricEnqueued := metricEnqueued s + 1\<rparr>)
      | None \<Rightarrow>
          (\<lparr>Accepted = int accepted, Status = ''BACKPRESSURE''\<rparr>,
           s\<lparr>metricBackpressure := metricBackpressure s + 1\<rparr>))"

definition PublishBatch ::
  "'m TelemetryBatch option \<Rightarrow> 'm Server \<Rightarrow> (error + PublishResponse) \<times> 'm Server" where
  "PublishBatch req s =
     (case req of
        None \<Rightarrow> (Inl ''nil request'', s)
      | Some b \<Rightarrow> (case publish_loop (Items b) 0 s of (resp, s') \<Rightarrow> (Inr resp, s')))"

definition addSubscriber :: "'m subscriber \<Rightarrow> 'm Server \<Rightarrow> 'm Server" where
  "addSubscriber sub s =
     (let s = s\<lparr>subs := subs s @ [sub]\<rparr> in s\<lparr>metricSubscribers := length (subs s)\<rparr>)"

text \<open>
  \<^verbatim>\<open>removeSubscriber\<close> compacts the slice in place: \<open>i\<close> is the index the \<^verbatim>\<open>range\<close> loop
  reads, \<open>n\<close> the index it writes. The element is read from the array as it is at that
  moment, after the earlier writes.
\<close>

function remove_loop ::
  "string \<Rightarrow> 'm subscriber list \<Rightarrow> nat \<Rightarrow> nat \<Rightarrow> 'm subscriber list \<times> nat" where
  "remove_loop rid arr i n =
     (if i < length arr then
        (let sub = arr ! i in
         if id' sub \<noteq> rid then remove_loop rid (arr[n := sub]) (i + 1) (n + 1)
         else remove_loop rid arr (i + 1) n)
      else (arr, n))"
  by pat_completeness auto
termination
  by (relation "measure (\<lambda>(rid, arr, i, n). length arr - i)") auto

declare remove_loop.simps [simp del]

definition removeSubscriber :: "string \<Rightarrow> 'm Server \<Rightarrow> 'm Server" where
  "removeSubscriber rid s =
     (case remove_loop rid (subs s) 0 0 of
        (arr, n) \<Rightarrow>
          (let s = s\<lparr>subs := take n arr\<rparr> in s\<lparr>metricSubscribers := length (subs s)\<rparr>))"

definition snapshotSubs :: "'m Server \<Rightarrow> 'm subscriber list" where
  "snapshotSubs s = subs s"

text \<open>
  One iteration of the inner \<^verbatim>\<open>for i := 0; i < len(subs); i++\<close> loop of the dispatcher.
  In Go a \<^verbatim>\<open>break\<close> inside a \<^verbatim>\<open>select\<close> case leaves the \<^verbatim>\<open>select\<close> statement only; the
  \<^verbatim>\<open>for\<close> loop goes on with \<open>i + 1\<close>. The subscribers are pointers, so a send through the
  snapshot changes the channel the registered subscriber owns.
\<close>

definition dispatch_try ::
  "'m option \<Rightarrow> nat \<Rightarrow> nat \<Rightarrow> nat \<Rightarrow> 'm Server \<times> bool \<Rightarrow> 'm Server \<times> bool" where
  "dispatch_try msg start n i = (\<lambda>(s, delivered).
     (let idx = (start + i) mod n;
          sel = snapshotSubs s ! idx
      in case try_send (ch sel) msg of
           Some q \<Rightarrow>
             (s\<lparr>subs := (subs s)[idx := sel\<lparr>ch := q\<rparr>], next' := (idx + 1) mod n\<rparr>, True)
         | None \<Rightarrow> (s, delivered)))"

text \<open>One pass over the snapshot for one record: \<^verbatim>\<open>delivered := false; start := s.next\<close>
  and the inner loop.\<close>

definition dispatch_attempt :: "'m option \<Rightarrow> 'm Server \<Rightarrow> 'm Server \<times> bool" where
  "dispatch_attempt msg s =
     (let n = length (snapshotSubs s); start = next' s
      in fold (dispatch_try msg start n) [0..<n] (s, False))"

text \<open>
  The retry loop for one record. With no subscriber, or with every buffer full, the Go
  code sleeps and tries again; in a run where nothing else changes the state it never
  returns, which is the value \<open>None\<close>.
\<close>

partial_function (option) dispatch_msg :: "'m option \<Rightarrow> 'm Server \<Rightarrow> 'm Server option" where
  "dispatch_msg msg s =
     (if length (snapshotSubs s) = 0 then dispatch_msg msg s
      else case dispatch_attempt msg s of
             (s', delivered) \<Rightarrow> if delivered then Some s' else dispatch_msg msg s')"

text \<open>\<^verbatim>\<open>for msg := range s.inbound\<close>: the dispatcher run until the inbound queue is empty,
  where the Go loop waits for the next record.\<close>

partial_function (option) dispatcher :: "'m Server \<Rightarrow> 'm Server option" where
  "dispatcher s =
     (case buf (inbound s) of
        [] \<Rightarrow> Some s
      | msg # rest \<Rightarrow>
          Option.bind (dispatch_msg msg (s\<lparr>inbound := (inbound s)\<lparr>buf := rest\<rparr>\<rparr>)) dispatcher)"

text \<open>
  \<^verbatim>\<open>Subscribe\<close>. The id is the formatted clock reading, an input here. The \<^verbatim>\<open>select\<close> of
  the loop either sees the stream context done or receives from the subscriber's buffer;
  which one is the scheduler's choice when both are ready. \<^verbatim>\<open>stream.Send\<close> is a function
  from the record to the error it returns. Every return runs the deferred
  \<^verbatim>\<open>removeSubscriber\<close>.
\<close>

datatype select_case = CtxDone | RecvMsg

datatype step_result = Running | Blocked | Returned "error option"

definition Subscribe_begin :: "string \<Rightarrow> 'm Server \<Rightarrow> 'm Server" where
  "Subscribe_begin new_id s = addSubscriber \<lparr>id' = new_id, ch = make_chan (subBuf s)\<rparr> s"

text \<open>The body of \<^verbatim>\<open>case msg := <-sub.ch\<close>, for the record just received.\<close>

definition Subscribe_msg ::
  "string \<Rightarrow> ('m \<Rightarrow> error option) \<Rightarrow> 'm option \<Rightarrow> 'm Server \<Rightarrow> step_result \<times> 'm Server" where
  "Subscribe_msg sub_id send msg s =
     (case msg of
        None \<Rightarrow> (Returned None, removeSubscriber sub_id s)
      | Some m \<Rightarrow>
          (case send m of
             Some err \<Rightarrow>
               (let s = removeSubscriber sub_id s;
                    s = (case try_send (inbound s) msg of
                           Some q \<Rightarrow> s\<lparr>inbound := q, metricRequeued := metricRequeued s + 1\<rparr>
                         | None \<Rightarrow> s)
                in (Returned (Some err), removeSubscriber sub_id s))
           | None \<Rightarrow> (Running, s\<lparr>metricDelivered := metricDelivered s + 1\<rparr>)))"

text \<open>Receiving from the buffer of the subscriber registered under the id: its oldest
  record, if there is one.\<close>

fun recv_sub :: "string \<Rightarrow> 'm subscriber list \<Rightarrow> ('m option \<times> 'm subscriber list) option" where
  "recv_sub sub_id [] = None"
| "recv_sub sub_id (sub # rest) =
     (if id' sub = sub_id then
        (case buf (ch sub) of
           [] \<Rightarrow> None
         | msg # queued \<Rightarrow> Some (msg, sub\<lparr>ch := (ch sub)\<lparr>buf := queued\<rparr>\<rparr> # rest))
      else (case recv_sub sub_id rest of
              None \<Rightarrow> None
            | Some (msg, rest') \<Rightarrow> Some (msg, sub # rest')))"

definition Subscribe_step ::
  "string \<Rightarrow> select_case \<Rightarrow> ('m \<Rightarrow> error option) \<Rightarrow> 'm Server \<Rightarrow> step_result \<times> 'm Server" where
  "Subscribe_step sub_id sel send s =
     (case sel of
        CtxDone \<Rightarrow> (Returned None, removeSubscriber sub_id s)
      | RecvMsg \<Rightarrow>
          (case recv_sub sub_id (subs s) of
             None \<Rightarrow> (Blocked, s)
           | Some (msg, subs') \<Rightarrow> Subscribe_msg sub_id send msg (s\<lparr>subs := subs'\<rparr>)))"


text \<open>Two notions used to state what the dispatcher does: a subscriber whose buffer can
  take \<open>k\<close> more records, and a subscriber after the records \<open>msgs\<close> have been appended to
  its buffer.\<close>

definition has_room :: "'m subscriber \<Rightarrow> nat \<Rightarrow> bool" where
  "has_room sub k = (length (buf (ch sub)) + k \<le> cap (ch sub))"

definition offer :: "'m option list \<Rightarrow> 'm subscriber \<Rightarrow> 'm subscriber" where
  "offer msgs sub = sub\<lparr>ch := (ch sub)\<lparr>buf := buf (ch sub) @ msgs\<rparr>\<rparr>"

section \<open>Collector (\<^verbatim>\<open>cmd/collector/main.go\<close>)\<close>

text \<open>
  Modelled from the spec: the generated package \<^verbatim>\<open>api/gen\<close> is not among the sources. The
  wire record is \<^verbatim>\<open>{producer_id, host_id, gpu_id, ts (timestamp), metrics
  (map<string,double>)}\<close>; the timestamp message carries seconds and nanoseconds. The
  getters of generated code accept a \<^verbatim>\<open>nil\<close> receiver and return the zero value for it.
\<close>

record Timestamp_pb =
  Seconds :: int
  Nanos :: int

record TelemetryData =
  ProducerId :: string
  HostId :: string
  GpuId :: string
  Ts :: "Timestamp_pb option"
  MetricsMap :: "string \<rightharpoonup> float64"

definition GetGpuId :: "TelemetryData option \<Rightarrow> string" where
  "GetGpuId m = (case m of None \<Rightarrow> [] | Some d \<Rightarrow> GpuId d)"

definition GetTs :: "TelemetryData option \<Rightarrow> Timestamp_pb option" where
  "GetTs m = (case m of None \<Rightarrow> None | Some d \<Rightarrow> Ts d)"

definition GetMetrics :: "TelemetryData option \<Rightarrow> (string \<rightharpoonup> float64)" where
  "GetMetrics m = (case m of None \<Rightarrow> Map.empty | Some d \<Rightarrow> MetricsMap d)"

definition AsTime :: "Timestamp_pb option \<Rightarrow> instant" where
  "AsTime x = (case x of None \<Rightarrow> 0 | Some t \<Rightarrow> Seconds t * 1000000000 + Nanos t)"

text \<open>
  \<^verbatim>\<open>strings.TrimSpace\<close> removes leading and trailing white space as Unicode defines it. A
  Go string is a byte sequence read as UTF-8, so a white-space character is one of the
  byte sequences below: the six ASCII ones, U+0085 and U+00A0 (two bytes), and U+1680,
  U+2000 to U+200A, U+2028, U+2029, U+202F, U+205F and U+3000 (three bytes). None of
  them is a prefix or a suffix of another.
\<close>

definition space_runes :: "string list" where
  "space_runes =
     [[CHR 0x09], [CHR 0x0A], [CHR 0x0B], [CHR 0x0C], [CHR 0x0D], [CHR 0x20],
      [CHR 0xC2, CHR 0x85], [CHR 0xC2, CHR 0xA0],
      [CHR 0xE1, CHR 0x9A, CHR 0x80],
      [CHR 0xE2, CHR 0x80, CHR 0x80], [CHR 0xE2, CHR 0x80, CHR 0x81],
      [CHR 0xE2, CHR 0x80, CHR 0x82], [CHR 0xE2, CHR 0x80, CHR 0x83],
      [CHR 0xE2, CHR 0x80, CHR 0x84], [CHR 0xE2, CHR 0x80, CHR 0x85],
      [CHR 0xE2, CHR 0x80, CHR 0x86], [CHR 0xE2, CHR 0x80, CHR 0x87],
      [CHR 0xE2, CHR 0x80, CHR 0x88], [CHR 0xE2, CHR 0x80, CHR 0x89],
      [CHR 0xE2, CHR 0x80, CHR 0x8A],
      [CHR 0xE2, CHR 0x80, CHR 0xA8], [CHR 0xE2, CHR 0x80, CHR 0xA9],
      [CHR 0xE2, CHR 0x80, CHR 0xAF], [CHR 0xE2, CHR 0x81, CHR 0x9F],
      [CHR 0xE3, CHR 0x80, CHR 0x80]]"

text \<open>The number of bytes of the white-space character the string starts with (ends
  with), or 0 when it starts (ends) with none.\<close>

definition leading_space :: "string \<Rightarrow> nat" where
  "leading_space s =
     (case find (\<lambda>r. take (length r) s = r) space_runes of None \<Rightarrow> 0 | Some r \<Rightarrow> length r)"

definition trailing_space :: "string \<Rightarrow> nat" where
  "trailing_space s =
     (case find (\<lambda>r. drop (length s - length r) s = r) space_runes of
        None \<Rightarrow> 0 | Some r \<Rightarrow> length r)"

function TrimLeft :: "string \<Rightarrow> string" where
  "TrimLeft s =
     (if s = [] \<or> leading_space s = 0 then s else TrimLeft (drop (leading_space s) s))"
  by pat_completeness auto
termination
  by (relation "measure length") auto

function TrimRight :: "string \<Rightarrow> string" where
  "TrimRight s =
     (if s = [] \<or> trailing_space s = 0 then s
      else TrimRight (take (length s - trailing_space s) s))"
  by pat_completeness auto
termination
  by (relation "measure length") auto

declare TrimLeft.simps [simp del] TrimRight.simps [simp del]

definition TrimSpace :: "string \<Rightarrow> string" where
  "TrimSpace s = TrimRight (TrimLeft s)"

definition stringsTrim :: "string \<Rightarrow> string" where
  "stringsTrim s = TrimSpace s"

definition validate :: "TelemetryData option \<Rightarrow> bool" where
  "validate m =
     (if m = None then False
      else if stringsTrim (GetGpuId m) = [] then False
      else if GetTs m = None then False
      else True)"

definition toModel :: "TelemetryData option \<Rightarrow> Telemetry" where
  "toModel m = \<lparr>GPUId = GetGpuId m, Timestamp = AsTime (GetTs m), Metrics = GetMetrics m\<rparr>"

text \<open>
  The state of \<^verbatim>\<open>runCollectorLoop\<close>: the current batch, the jobs sent on the \<^verbatim>\<open>jobs\<close>
  channel so far, in order, whether that channel is closed, and the counters. The send
  in \<^verbatim>\<open>flush\<close> waits while the channel is full and then goes through, so every job
  flushed is a job sent.
\<close>

record Collector =
  batch :: "Telemetry list"
  jobs :: "Telemetry list list"
  jobs_closed :: bool
  metricReceived :: nat
  metricBatched :: nat
  metricFlushed :: nat
  metricDroppedInvalid :: nat
  metricFlushErrors :: nat
  metricBacklog :: nat

definition new_collector :: Collector where
  "new_collector =
     \<lparr>batch = [], jobs = [], jobs_closed = False, metricReceived = 0, metricBatched = 0,
      metricFlushed = 0, metricDroppedInvalid = 0, metricFlushErrors = 0, metricBacklog = 0\<rparr>"

definition flush :: "Collector \<Rightarrow> Collector" where
  "flush c =
     (if length (batch c) = 0 then c
      else c\<lparr>batch := [], metricBacklog := 0, jobs := jobs c @ [batch c]\<rparr>)"

text \<open>What one turn of the \<^verbatim>\<open>for { select ... }\<close> loop meets: the context done, a tick of
  the flush timer, or, in the \<^verbatim>\<open>default\<close> branch, the result of \<^verbatim>\<open>stream.Recv()\<close>.\<close>

datatype event = Done | Tick | Recv "TelemetryData option" | RecvErr error

datatype loop_result = Looping | Exited "error option"

definition final_flush :: "Collector \<Rightarrow> Collector" where
  "final_flush c = (flush c)\<lparr>jobs_closed := True\<rparr>"

fun loop_step :: "nat \<Rightarrow> event \<Rightarrow> Collector \<Rightarrow> loop_result \<times> Collector" where
  "loop_step batchSize Done c = (Exited None, final_flush c)"
| "loop_step batchSize Tick c = (Looping, flush c)"
| "loop_step batchSize (RecvErr err) c = (Exited (Some (''recv: '' @ err)), final_flush c)"
| "loop_step batchSize (Recv msg) c =
     (let c = c\<lparr>metricReceived := metricReceived c + 1\<rparr> in
      if \<not> validate msg then (Looping, c\<lparr>metricDroppedInvalid := metricDroppedInvalid c + 1\<rparr>)
      else
        (let t = toModel msg;
             c = c\<lparr>batch := batch c @ [t]\<rparr>;
             c = c\<lparr>metricBatched := metricBatched c + 1\<rparr>;
             c = c\<lparr>metricBacklog := length (batch c)\<rparr>
         in if length (batch c) \<ge> batchSize then (Looping, flush c) else (Looping, c)))"

fun runCollectorLoop :: "nat \<Rightarrow> event list \<Rightarrow> Collector \<Rightarrow> loop_result \<times> Collector" where
  "runCollectorLoop batchSize [] c = (Looping, c)"
| "runCollectorLoop batchSize (e # es) c =
     (case loop_step batchSize e c of
        (Looping, c') \<Rightarrow> runCollectorLoop batchSize es c'
      | (Exited r, c') \<Rightarrow> (Exited r, c'))"

text \<open>
  A flush worker. The store is the \<^verbatim>\<open>storage.Store\<close> interface value: \<open>save\<close> takes the
  store's state and a record and returns the error and the new state. \<open>worker_job\<close> is
  the body of \<^verbatim>\<open>for j := range jobs\<close> for one job, \<open>run_workers\<close> the jobs sent so far
  taken in the order they were sent.
\<close>

fun worker_job ::
  "('st \<Rightarrow> Telemetry \<Rightarrow> error option \<times> 'st) \<Rightarrow> Telemetry list \<Rightarrow> 'st \<times> Collector \<Rightarrow> 'st \<times> Collector" where
  "worker_job save [] (st, c) = (st, c)"
| "worker_job save (it # items) (st, c) =
     (case save st it of
        (Some err, st') \<Rightarrow>
          worker_job save items (st', c\<lparr>metricFlushErrors := metricFlushErrors c + 1\<rparr>)
      | (None, st') \<Rightarrow>
          worker_job save items (st', c\<lparr>metricFlushed := metricFlushed c + 1\<rparr>))"

definition run_workers ::
  "('st \<Rightarrow> Telemetry \<Rightarrow> error option \<times> 'st) \<Rightarrow> 'st \<times> Collector \<Rightarrow> 'st \<times> Collector" where
  "run_workers save = (\<lambda>(st, c). fold (worker_job save) (jobs c) (st, c))"

text \<open>The store of the collector's tests, which records what it is given
  (\<^verbatim>\<open>captureStore\<close>): it fails every save when \<open>fail\<close> is set.\<close>

definition captureStore_SaveTelemetry ::
  "bool \<Rightarrow> Telemetry list \<Rightarrow> Telemetry \<Rightarrow> error option \<times> Telemetry list" where
  "captureStore_SaveTelemetry fail items t =
     (if fail then (Some ''save failed'', items) else (None, items @ [t]))"


text \<open>
  Two notions used to state what the loop does. \<open>taken c\<close> is every record the loop has
  kept so far: the records of the jobs it has sent, in order, followed by the current
  batch. \<open>received evs\<close> is the sequence of messages \<^verbatim>\<open>Recv\<close> returns until the loop
  exits.
\<close>

definition taken :: "Collector \<Rightarrow> Telemetry list" where
  "taken c = concat (jobs c) @ batch c"

fun received :: "event list \<Rightarrow> TelemetryData option list" where
  "received [] = []"
| "received (Recv m # es) = m # received es"
| "received (Tick # es) = received es"
| "received (Done # es) = []"
| "received (RecvErr e # es) = []"

section \<open>Read API (\<^verbatim>\<open>cmd/api-gateway/server.go\<close>)\<close>





















section \<open>Example inputs\<close>

text \<open>A record of GPU \<open>g\<close> at instant \<open>t\<close> with no metrics, and the stores of the storage
  tests: three records saved out of order, and five records one second apart (instants
  are counted in seconds from the first one here).\<close>

definition rec_at :: "string \<Rightarrow> instant \<Rightarrow> Telemetry" where
  "rec_at g t = \<lparr>GPUId = g, Timestamp = t, Metrics = Map.empty\<rparr>"

definition store_unordered :: MemoryStore where
  "store_unordered =
     save_all NewMemoryStore [rec_at ''g1'' 2, rec_at ''g1'' 1, rec_at ''g1'' 3]"

definition store_five :: MemoryStore where
  "store_five =
     save_all NewMemoryStore
       [rec_at ''g1'' 0, rec_at ''g1'' 1, rec_at ''g1'' 2, rec_at ''g1'' 3, rec_at ''g1'' 4]"

text \<open>
  Brokers of the broker tests, with the GPU id standing for the record: queue capacity 1
  and no subscriber; capacity 10 with two subscribers \<open>A\<close> and \<open>B\<close> whose buffers hold 10
  records; a stream whose \<^verbatim>\<open>Send\<close> always fails.
\<close>

definition batch_g0 :: "string TelemetryBatch" where
  "batch_g0 = \<lparr>Items = [Some ''g0'']\<rparr>"

definition batch_g0g1 :: "string TelemetryBatch" where
  "batch_g0g1 = \<lparr>Items = [Some ''g0'', Some ''g1'']\<rparr>"

definition broker_small :: "string Server" where
  "broker_small = NewServer 1 1"

definition broker_two :: "string Server" where
  "broker_two = Subscribe_begin ''B'' (Subscribe_begin ''A'' (NewServer 10 10))"

definition errStream_Send :: "string \<Rightarrow> error option" where
  "errStream_Send d = Some ''context canceled''"

text \<open>
  A broker with queue capacity 1 and one subscriber \<open>E\<close> with a buffer of 1: \<open>g0\<close> has been
  published and dispatched to \<open>E\<close>, then \<open>g1\<close> has been published and fills the inbound
  queue.
\<close>

definition broker_full :: "string Server" where
  "broker_full =
     \<lparr>subs = [\<lparr>id' = ''E'', ch = \<lparr>buf = [Some ''g0''], cap = 1\<rparr>\<rparr>], next' = 0,
      inbound = \<lparr>buf = [Some ''g1''], cap = 1\<rparr>, queueCap = 1, subBuf = 1,
      metricEnqueued = 2, metricDelivered = 0, metricBackpressure = 0,
      metricRequeued = 0, metricSubscribers = 1\<rparr>"

text \<open>The broker of the requeue test: subscribers \<open>E\<close>, whose stream fails, and \<open>K\<close>.\<close>

definition broker_EK :: "string Server" where
  "broker_EK = Subscribe_begin ''K'' (Subscribe_begin ''E'' (NewServer 10 10))"

text \<open>
  Messages of the collector tests: a valid one, one whose GPU id is three blanks, one
  without a timestamp; and a stream that delivers them, a \<^verbatim>\<open>nil\<close> message and the valid
  one again, and then fails.
\<close>

definition msg_ok :: "TelemetryData option" where
  "msg_ok = Some \<lparr>ProducerId = ''p'', HostId = ''h'', GpuId = ''g1'',
                   Ts = Some \<lparr>Seconds = 1, Nanos = 0\<rparr>, MetricsMap = Map.empty\<rparr>"

definition msg_blank :: "TelemetryData option" where
  "msg_blank = Some \<lparr>ProducerId = ''p'', HostId = ''h'', GpuId = ''   '',
                      Ts = Some \<lparr>Seconds = 1, Nanos = 0\<rparr>, MetricsMap = Map.empty\<rparr>"

definition msg_no_ts :: "TelemetryData option" where
  "msg_no_ts = Some \<lparr>ProducerId = ''p'', HostId = ''h'', GpuId = ''g1'',
                      Ts = None, MetricsMap = Map.empty\<rparr>"

definition stream_example :: "event list" where
  "stream_example =
     [Recv msg_ok, Recv msg_blank, Recv None, Tick, Recv msg_no_ts, Recv msg_ok,
      RecvErr ''stream closed'']"






section \<open>The in-memory store keeps every timeline sorted\<close>

lemma insert_stable_insort: "insert_stable less_ts x ys = insort_key Timestamp x ys"
  by (induction ys) (auto simp: less_ts_def Before_def)

lemma SliceStable_sort_key: "SliceStable less_ts xs = sort_key Timestamp xs"
  by (induction xs) (simp_all add: SliceStable_def insert_stable_insort)

text \<open>A stable sort has one possible result, so the choice of the algorithm does not
  matter: a rearrangement of \<open>xs\<close> that is ascending by timestamp and keeps the order of
  the records with equal timestamps is \<open>SliceStable less_ts xs\<close>.\<close>

lemma SliceStable_unique:
  assumes "mset ys = mset xs" and "sorted (map Timestamp ys)"
    and "\<And>k. filter (\<lambda>r. Timestamp r = k) ys = filter (\<lambda>r. Timestamp r = k) xs"
  shows "ys = SliceStable less_ts xs"
proof -
  have "sort_key Timestamp xs = ys"
  proof (rule properties_for_sort_key)
    show "mset ys = mset xs" by (rule assms(1))
    show "sorted (map Timestamp ys)" by (rule assms(2))
    show "filter (\<lambda>x. Timestamp k = Timestamp x) ys =
          filter (\<lambda>x. Timestamp k = Timestamp x) xs"
      for k :: Telemetry
      using assms(3) [of "Timestamp k"] by (simp add: eq_commute [of "Timestamp k"])
  qed
  then show ?thesis by (simp add: SliceStable_sort_key)
qed

text \<open>Sorting again after one more element has been appended gives the stable sort of
  the whole sequence: a sorted, stable rearrangement is unique.\<close>

lemma sort_key_snoc_sorted: "sort_key f (sort_key f xs @ [x]) = sort_key f (xs @ [x])"
proof (rule properties_for_sort_key)
  show "mset (sort_key f (xs @ [x])) = mset (sort_key f xs @ [x])" by simp
next
  fix k
  show "filter (\<lambda>y. f k = f y) (sort_key f (xs @ [x])) =
        filter (\<lambda>y. f k = f y) (sort_key f xs @ [x])"
    using sort_key_stable [of f "f k" "xs @ [x]"] sort_key_stable [of f "f k" xs]
    by (simp add: eq_commute [of "f k"])
next
  show "sorted (map f (sort_key f (xs @ [x])))" by simp
qed

lemma save_all_snoc: "save_all m (ts @ [t]) = snd (SaveTelemetry (save_all m ts) t)"
  by (simp add: save_all_def)

lemma lookup_SaveTelemetry:
  "lookup_data (snd (SaveTelemetry m t)) g =
     (if GPUId t = g then sort_key Timestamp (lookup_data m g @ [t]) else lookup_data m g)"
  by (simp add: SaveTelemetry_def lookup_data_def SliceStable_sort_key Let_def)

lemma lookup_save_all:
  "lookup_data (save_all NewMemoryStore ts) g =
     sort_key Timestamp (filter (\<lambda>t. GPUId t = g) ts)"
proof (induction ts rule: rev_induct)
  case Nil
  show ?case by (simp add: save_all_def NewMemoryStore_def lookup_data_def)
next
  case (snoc t ts)
  show ?case
    by (simp add: save_all_snoc lookup_SaveTelemetry snoc.IH sort_key_snoc_sorted)
qed

lemma elems_None: "elems None = []"
  by (simp add: elems_def)

lemma elems_Some: "elems (Some xs) = xs"
  by (simp add: elems_def)

lemma query_loop_filter:
  "elems (query_loop start stop s out) = elems out @ filter (in_window start stop) s"
  by (induction s arbitrary: out)
     (auto simp: in_window_def Before_def After_def append_slice_def elems_def
           split: option.splits)

lemma QueryTelemetry_filter:
  "elems (fst (QueryTelemetry m g start stop)) = filter (in_window start stop) (lookup_data m g)"
proof (cases "start = None \<and> stop = None")
  case True
  then show ?thesis by (simp add: QueryTelemetry_def in_window_def elems_Some)
next
  case False
  then show ?thesis by (auto simp: QueryTelemetry_def Let_def query_loop_filter elems_None)
qed

lemma QueryTelemetry_no_error: "snd (QueryTelemetry m g start stop) = None"
  by (simp add: QueryTelemetry_def Let_def)

lemmas store_eval =
  save_all_def SaveTelemetry_def NewMemoryStore_def lookup_data_def SliceStable_def
  less_ts_def Before_def After_def QueryTelemetry_def rec_at_def elems_def append_slice_def

text \<open>
  C6. Start from the empty in-memory store and save any records \<open>ts\<close>, in any order. Then
  the sequence kept for every GPU \<open>g\<close> is in ascending timestamp order; among the records
  of \<open>g\<close> with one timestamp \<open>k\<close> the order is the order in which they were saved; and
  every query, for every GPU and every window, returns its records in ascending
  timestamp order.
\<close>

theorem C6_memory_store_sorted:
  "sorted (map Timestamp (lookup_data (save_all NewMemoryStore ts) g)) \<and>
   filter (\<lambda>r. Timestamp r = k) (lookup_data (save_all NewMemoryStore ts) g) =
     filter (\<lambda>r. Timestamp r = k) (filter (\<lambda>r. GPUId r = g) ts) \<and>
   sorted (map Timestamp
     (elems (fst (QueryTelemetry (save_all NewMemoryStore ts) g start stop))))"
proof (intro conjI)
  show a: "sorted (map Timestamp (lookup_data (save_all NewMemoryStore ts) g))"
    by (simp add: lookup_save_all)
  show "filter (\<lambda>r. Timestamp r = k) (lookup_data (save_all NewMemoryStore ts) g) =
        filter (\<lambda>r. Timestamp r = k) (filter (\<lambda>r. GPUId r = g) ts)"
    by (simp only: lookup_save_all sort_key_stable)
  show "sorted (map Timestamp
     (elems (fst (QueryTelemetry (save_all NewMemoryStore ts) g start stop))))"
    by (simp add: QueryTelemetry_filter sorted_filter a)
qed

text \<open>The store test: saved at 2, 1, 3 seconds, read back at 1, 2, 3.\<close>

theorem C6_memory_store_sorted_witness:
  "map Timestamp (elems (fst (QueryTelemetry store_unordered ''g1'' None None))) = [1, 2, 3] \<and>
   sorted (map Timestamp (elems (fst (QueryTelemetry store_unordered ''g1'' None None))))"
proof
  show "map Timestamp (elems (fst (QueryTelemetry store_unordered ''g1'' None None))) = [1, 2, 3]"
    by (simp add: store_unordered_def store_eval)
  show "sorted (map Timestamp (elems (fst (QueryTelemetry store_unordered ''g1'' None None))))"
    unfolding store_unordered_def
    using C6_memory_store_sorted
      [of "[rec_at ''g1'' 2, rec_at ''g1'' 1, rec_at ''g1'' 3]" "''g1''" 0 None None]
    by (elim conjE)
qed

text \<open>
  C7. A query of the in-memory store returns, in stored order, exactly the stored records
  of the GPU whose timestamp is at or after \<open>start\<close>, when \<open>start\<close> is given, and at or
  before \<open>stop\<close>, when \<open>stop\<close> is given; it returns no error. So a stored record whose
  timestamp equals a given bound is returned whenever the other bound admits it.
\<close>

theorem C7_query_window_inclusive:
  "elems (fst (QueryTelemetry m g start stop)) = filter (in_window start stop) (lookup_data m g) \<and>
   snd (QueryTelemetry m g start stop) = None \<and>
   (r \<in> set (elems (fst (QueryTelemetry m g start stop))) \<longleftrightarrow>
      r \<in> set (lookup_data m g) \<and>
      (\<forall>t0. start = Some t0 \<longrightarrow> t0 \<le> Timestamp r) \<and>
      (\<forall>t1. stop = Some t1 \<longrightarrow> Timestamp r \<le> t1)) \<and>
   (r \<in> set (lookup_data m g) \<and> start = Some (Timestamp r) \<and>
      (\<forall>t1. stop = Some t1 \<longrightarrow> Timestamp r \<le> t1)
      \<longrightarrow> r \<in> set (elems (fst (QueryTelemetry m g start stop)))) \<and>
   (r \<in> set (lookup_data m g) \<and> stop = Some (Timestamp r) \<and>
      (\<forall>t0. start = Some t0 \<longrightarrow> t0 \<le> Timestamp r)
      \<longrightarrow> r \<in> set (elems (fst (QueryTelemetry m g start stop))))"
  by (auto simp: QueryTelemetry_filter QueryTelemetry_no_error in_window_def
           split: option.splits)

text \<open>The window test: records at 0 to 4 seconds, window from 1 to 3 seconds; the records
  at 1 and at 3 are in the result, the record at 4 is not.\<close>

theorem C7_query_window_inclusive_witness:
  "rec_at ''g1'' 1 \<in> set (elems (fst (QueryTelemetry store_five ''g1'' (Some 1) (Some 3)))) \<and>
   rec_at ''g1'' 3 \<in> set (elems (fst (QueryTelemetry store_five ''g1'' (Some 1) (Some 3)))) \<and>
   rec_at ''g1'' 4 \<notin> set (elems (fst (QueryTelemetry store_five ''g1'' (Some 1) (Some 3)))) \<and>
   map Timestamp (elems (fst (QueryTelemetry store_five ''g1'' (Some 1) (Some 3)))) = [1, 2, 3]"
proof -
  have stored: "lookup_data store_five ''g1'' =
      [rec_at ''g1'' 0, rec_at ''g1'' 1, rec_at ''g1'' 2, rec_at ''g1'' 3, rec_at ''g1'' 4]"
    by (simp add: store_five_def store_eval)
  have ts: "Timestamp (rec_at ''g1'' t) = t" for t
    by (simp add: rec_at_def)
  have "elems (fst (QueryTelemetry store_five ''g1'' (Some 1) (Some 3))) =
      filter (in_window (Some 1) (Some 3)) (lookup_data store_five ''g1'')"
    using C7_query_window_inclusive [of store_five "''g1''" "Some 1" "Some 3" "rec_at ''g1'' 1"]
    by (elim conjE)
  then have res: "elems (fst (QueryTelemetry store_five ''g1'' (Some 1) (Some 3))) =
      [rec_at ''g1'' 1, rec_at ''g1'' 2, rec_at ''g1'' 3]"
    by (simp add: stored in_window_def ts)
  show ?thesis
    by (simp add: res) (simp add: rec_at_def)
qed


section \<open>Publishing accepts a prefix of the batch\<close>

text \<open>The loop enqueues as many items as the queue has room for, and no more.\<close>

lemma publish_loop_char:
  "publish_loop items acc s =
     (let k = min (length items) (cap (inbound s) - length (buf (inbound s))) in
      (\<lparr>Accepted = int (acc + k),
        Status = (if k = length items then ''OK'' else ''BACKPRESSURE'')\<rparr>,
       s\<lparr>inbound := (inbound s)\<lparr>buf := buf (inbound s) @ take k items\<rparr>,
         metricEnqueued := metricEnqueued s + k,
         metricBackpressure := metricBackpressure s + (if k = length items then 0 else 1)\<rparr>))"
proof (induction items arbitrary: acc s)
  case Nil
  show ?case by simp
next
  case (Cons item rest)
  show ?case
  proof (cases "length (buf (inbound s)) < cap (inbound s)")
    case True
    then have m: "min (Suc (length rest)) (cap (inbound s) - length (buf (inbound s)))
        = Suc (min (length rest) (cap (inbound s) - Suc (length (buf (inbound s)))))"
      by arith
    from True show ?thesis
      by (simp add: try_send_def Cons.IH Let_def m)
  next
    case False
    then show ?thesis by (simp add: try_send_def)
  qed
qed

lemma PublishBatch_char:
  "PublishBatch (Some b) s =
     (let k = min (length (Items b)) (cap (inbound s) - length (buf (inbound s))) in
      (Inr \<lparr>Accepted = int k,
            Status = (if k = length (Items b) then ''OK'' else ''BACKPRESSURE'')\<rparr>,
       s\<lparr>inbound := (inbound s)\<lparr>buf := buf (inbound s) @ take k (Items b)\<rparr>,
         metricEnqueued := metricEnqueued s + k,
         metricBackpressure :=
           metricBackpressure s + (if k = length (Items b) then 0 else 1)\<rparr>))"
  by (simp add: PublishBatch_def publish_loop_char Let_def)

text \<open>
  C1. For a batch that is not \<^verbatim>\<open>nil\<close>, \<^verbatim>\<open>PublishBatch\<close> returns a response and no error. The
  number \<open>k\<close> it reports as accepted is the number of items it enqueued: the inbound queue
  afterwards is the queue before followed by the first \<open>k\<close> items of the batch, in their
  order, and nothing else; \<open>k\<close> is the number of items the queue had room for, so the
  loop stopped at the first item that did not fit. The status is \<^verbatim>\<open>OK\<close> exactly when all
  items were enqueued, and otherwise \<^verbatim>\<open>BACKPRESSURE\<close>, in which case \<open>k\<close> is less than the
  length of the batch and the item at position \<open>k\<close> cannot be enqueued. An empty batch
  gives \<open>(0, OK)\<close> and changes nothing.
\<close>

theorem C1_publish_accept_prefix:
  "\<exists>resp s' k.
     PublishBatch (Some b) s = (Inr resp, s') \<and>
     Accepted resp = int k \<and>
     k = min (length (Items b)) (cap (inbound s) - length (buf (inbound s))) \<and>
     buf (inbound s') = buf (inbound s) @ take k (Items b) \<and>
     cap (inbound s') = cap (inbound s) \<and>
     metricEnqueued s' = metricEnqueued s + k \<and>
     (Status resp = ''OK'' \<or> Status resp = ''BACKPRESSURE'') \<and>
     (Status resp = ''OK'' \<longleftrightarrow> k = length (Items b)) \<and>
     (Status resp = ''BACKPRESSURE'' \<longrightarrow>
        k < length (Items b) \<and> try_send (inbound s') (Items b ! k) = None) \<and>
     (Items b = [] \<longrightarrow> resp = \<lparr>Accepted = 0, Status = ''OK''\<rparr> \<and> s' = s)"
proof -
  define k where "k = min (length (Items b)) (cap (inbound s) - length (buf (inbound s)))"
  define resp where
    "resp = \<lparr>Accepted = int k,
             Status = (if k = length (Items b) then ''OK'' else ''BACKPRESSURE'')\<rparr>"
  define s' where
    "s' = s\<lparr>inbound := (inbound s)\<lparr>buf := buf (inbound s) @ take k (Items b)\<rparr>,
            metricEnqueued := metricEnqueued s + k,
            metricBackpressure :=
              metricBackpressure s + (if k = length (Items b) then 0 else 1)\<rparr>"
  have run: "PublishBatch (Some b) s = (Inr resp, s')"
    by (simp add: PublishBatch_char Let_def k_def resp_def s'_def)
  have kle: "k \<le> length (Items b)"
    by (simp add: k_def)
  have full: "try_send (inbound s') (Items b ! k) = None" if "k < length (Items b)"
  proof -
    from that have "k = cap (inbound s) - length (buf (inbound s))"
      by (simp add: k_def min_def split: if_splits)
    then show ?thesis using that
      by (simp add: try_send_def s'_def)
  qed
  have empty: "resp = \<lparr>Accepted = 0, Status = ''OK''\<rparr> \<and> s' = s" if "Items b = []"
    using that by (simp add: resp_def s'_def k_def)
  have st: "Status resp = ''OK'' \<longleftrightarrow> k = length (Items b)"
    by (simp add: resp_def)
  have st2: "Status resp = ''OK'' \<or> Status resp = ''BACKPRESSURE''"
    by (simp add: resp_def)
  have bp: "Status resp = ''BACKPRESSURE'' \<Longrightarrow> k < length (Items b)"
    using kle by (simp add: resp_def split: if_splits)
  have "PublishBatch (Some b) s = (Inr resp, s') \<and>
     Accepted resp = int k \<and>
     k = min (length (Items b)) (cap (inbound s) - length (buf (inbound s))) \<and>
     buf (inbound s') = buf (inbound s) @ take k (Items b) \<and>
     cap (inbound s') = cap (inbound s) \<and>
     metricEnqueued s' = metricEnqueued s + k \<and>
     (Status resp = ''OK'' \<or> Status resp = ''BACKPRESSURE'') \<and>
     (Status resp = ''OK'' \<longleftrightarrow> k = length (Items b)) \<and>
     (Status resp = ''BACKPRESSURE'' \<longrightarrow>
        k < length (Items b) \<and> try_send (inbound s') (Items b ! k) = None) \<and>
     (Items b = [] \<longrightarrow> resp = \<lparr>Accepted = 0, Status = ''OK''\<rparr> \<and> s' = s)"
    using run st st2 bp full empty
    by (simp add: resp_def s'_def k_def [symmetric])
  then show ?thesis by blast
qed

text \<open>The backpressure test: capacity 1, two items; one is accepted.\<close>

theorem C1_publish_accept_prefix_witness:
  "fst (PublishBatch (Some batch_g0g1) broker_small) =
     Inr \<lparr>Accepted = 1, Status = ''BACKPRESSURE''\<rparr> \<and>
   buf (inbound (snd (PublishBatch (Some batch_g0g1) broker_small))) = [Some ''g0'']"
proof -
  obtain resp s' k where
    run: "PublishBatch (Some batch_g0g1) broker_small = (Inr resp, s')" and
    acc: "Accepted resp = int k" and
    k: "k = min (length (Items batch_g0g1))
              (cap (inbound broker_small) - length (buf (inbound broker_small)))" and
    q: "buf (inbound s') = buf (inbound broker_small) @ take k (Items batch_g0g1)" and
    st: "Status resp = ''OK'' \<or> Status resp = ''BACKPRESSURE''" and
    ok: "Status resp = ''OK'' \<longleftrightarrow> k = length (Items batch_g0g1)"
    using C1_publish_accept_prefix [of batch_g0g1 broker_small] by blast
  have k1: "k = 1"
    using k by (simp add: batch_g0g1_def broker_small_def NewServer_def make_chan_def)
  have "Status resp = ''BACKPRESSURE''"
    using st ok k1 by (simp add: batch_g0g1_def)
  with acc k1 have "resp = \<lparr>Accepted = 1, Status = ''BACKPRESSURE''\<rparr>"
    by (cases resp) simp
  moreover have "buf (inbound s') = [Some ''g0'']"
    using q k1 by (simp add: batch_g0g1_def broker_small_def NewServer_def make_chan_def)
  ultimately show ?thesis by (simp add: run)
qed


section \<open>Removing a subscriber\<close>

text \<open>The loop invariant of the in-place compaction: the first \<open>n\<close> cells hold the
  subscribers kept so far, and the cells from \<open>i\<close> on are still the original ones.\<close>

lemma remove_loop_take:
  "n \<le> i \<Longrightarrow> remove_loop rid arr i n = (arr', n') \<Longrightarrow>
     take n' arr' = take n arr @ filter (\<lambda>sub. id' sub \<noteq> rid) (drop i arr)"
proof (induction rid arr i n rule: remove_loop.induct)
  case (1 rid arr i n)
  show ?case
  proof (cases "i < length arr")
    case False
    with "1.prems" show ?thesis by (simp add: remove_loop.simps)
  next
    case True
    note lt = True
    have dr: "drop i arr = arr ! i # drop (Suc i) arr"
      using lt by (simp add: Cons_nth_drop_Suc)
    show ?thesis
    proof (cases "id' (arr ! i) \<noteq> rid")
      case True
      let ?arr = "arr[n := arr ! i]"
      from "1.prems" lt True have r: "remove_loop rid ?arr (i + 1) (n + 1) = (arr', n')"
        by (subst (asm) remove_loop.simps) (simp add: Let_def)
      have "take n' arr' =
          take (n + 1) ?arr @ filter (\<lambda>sub. id' sub \<noteq> rid) (drop (i + 1) ?arr)"
        using "1.IH"(1) [OF lt refl True _ r] "1.prems"(1) by simp
      moreover have "take (n + 1) ?arr = take n arr @ [arr ! i]"
        using "1.prems"(1) lt by (simp add: take_Suc_conv_app_nth)
      moreover have "drop (i + 1) ?arr = drop (Suc i) arr"
        using "1.prems"(1) by simp
      ultimately show ?thesis using True by (simp add: dr)
    next
      case False
      from "1.prems" lt False have r: "remove_loop rid arr (i + 1) n = (arr', n')"
        by (subst (asm) remove_loop.simps) (simp add: Let_def)
      have "take n' arr' = take n arr @ filter (\<lambda>sub. id' sub \<noteq> rid) (drop (i + 1) arr)"
        using "1.IH"(2) [OF lt refl _ _ r] False "1.prems"(1) by simp
      then show ?thesis using False by (simp add: dr)
    qed
  qed
qed

lemma removeSubscriber_char:
  "removeSubscriber rid s =
     s\<lparr>subs := filter (\<lambda>sub. id' sub \<noteq> rid) (subs s),
       metricSubscribers := length (filter (\<lambda>sub. id' sub \<noteq> rid) (subs s))\<rparr>"
proof -
  obtain arr n where r: "remove_loop rid (subs s) 0 0 = (arr, n)"
    by (cases "remove_loop rid (subs s) 0 0")
  have t: "take n arr = filter (\<lambda>sub. id' sub \<noteq> rid) (subs s)"
    using remove_loop_take [OF _ r] by simp
  have l: "min (length arr) n = length (filter (\<lambda>sub. id' sub \<noteq> rid) (subs s))"
    by (metis t length_take)
  show ?thesis by (simp add: removeSubscriber_def r t l)
qed

text \<open>What \<^verbatim>\<open>Subscribe\<close> does with a record whose send fails.\<close>

lemma Subscribe_msg_failure:
  assumes "send m = Some err"
  shows "Subscribe_msg sub_id send (Some m) s =
     (Returned (Some err),
      (if length (buf (inbound s)) < cap (inbound s)
       then s\<lparr>subs := filter (\<lambda>sub. id' sub \<noteq> sub_id) (subs s),
              metricSubscribers := length (filter (\<lambda>sub. id' sub \<noteq> sub_id) (subs s)),
              inbound := (inbound s)\<lparr>buf := buf (inbound s) @ [Some m]\<rparr>,
              metricRequeued := metricRequeued s + 1\<rparr>
       else s\<lparr>subs := filter (\<lambda>sub. id' sub \<noteq> sub_id) (subs s),
              metricSubscribers := length (filter (\<lambda>sub. id' sub \<noteq> sub_id) (subs s))\<rparr>))"
  using assms by (simp add: Subscribe_msg_def removeSubscriber_char try_send_def Let_def)

text \<open>
  C9. \<^verbatim>\<open>removeSubscriber(id)\<close> leaves exactly the subscribers whose id differs from the
  argument, in their order. Hence removing twice is the same as removing once, removing
  an id that no subscriber has leaves the list as it was, and the send-failure path of
  \<^verbatim>\<open>Subscribe\<close>, which removes the subscriber explicitly and again on return, ends with
  the list that one removal gives.
\<close>

theorem C9_removeSubscriber_idempotent:
  "subs (removeSubscriber rid s) = filter (\<lambda>sub. id' sub \<noteq> rid) (subs s) \<and>
   removeSubscriber rid (removeSubscriber rid s) = removeSubscriber rid s \<and>
   (rid \<notin> id' ` set (subs s) \<longrightarrow> subs (removeSubscriber rid s) = subs s) \<and>
   (\<forall>m err. send m = Some err \<longrightarrow>
      subs (snd (Subscribe_msg rid send (Some m) s)) = subs (removeSubscriber rid s))"
proof (intro conjI allI impI)
  show "subs (removeSubscriber rid s) = filter (\<lambda>sub. id' sub \<noteq> rid) (subs s)"
    by (simp add: removeSubscriber_char)
  show "removeSubscriber rid (removeSubscriber rid s) = removeSubscriber rid s"
    by (simp add: removeSubscriber_char)
  show "subs (removeSubscriber rid s) = subs s" if "rid \<notin> id' ` set (subs s)"
    using that by (auto simp: removeSubscriber_char filter_id_conv)
  show "subs (snd (Subscribe_msg rid send (Some m) s)) = subs (removeSubscriber rid s)"
    if "send m = Some err" for m err
    using that by (simp add: Subscribe_msg_failure [of send m err] removeSubscriber_char)
qed

lemmas broker_eval =
  broker_small_def broker_two_def broker_EK_def broker_full_def batch_g0_def batch_g0g1_def
  errStream_Send_def Subscribe_begin_def NewServer_def addSubscriber_def make_chan_def
  try_send_def Let_def

text \<open>With subscribers \<open>A\<close> and \<open>B\<close>: removing \<open>A\<close> leaves \<open>B\<close>, a second removal changes
  nothing, removing an unknown id changes nothing, and a failed send on \<open>A\<close>'s stream
  leaves \<open>B\<close>.\<close>

theorem C9_removeSubscriber_idempotent_witness:
  "map id' (subs (removeSubscriber ''A'' broker_two)) = [''B''] \<and>
   removeSubscriber ''A'' (removeSubscriber ''A'' broker_two) = removeSubscriber ''A'' broker_two \<and>
   subs (removeSubscriber ''Z'' broker_two) = subs broker_two \<and>
   map id' (subs (snd (Subscribe_msg ''A'' errStream_Send (Some ''g0'') broker_two))) = [''B'']"
proof -
  note w = C9_removeSubscriber_idempotent [of "''A''" broker_two errStream_Send]
  have a: "map id' (subs (removeSubscriber ''A'' broker_two)) = [''B'']"
    using w by (simp add: broker_eval)
  have b: "removeSubscriber ''A'' (removeSubscriber ''A'' broker_two) =
      removeSubscriber ''A'' broker_two"
    using w by (elim conjE)
  have c: "subs (removeSubscriber ''Z'' broker_two) = subs broker_two"
    using C9_removeSubscriber_idempotent [of "''Z''" broker_two errStream_Send]
    by (simp add: broker_eval)
  have "errStream_Send ''g0'' = Some ''context canceled''"
    by (simp add: errStream_Send_def)
  with w have "subs (snd (Subscribe_msg ''A'' errStream_Send (Some ''g0'') broker_two)) =
      subs (removeSubscriber ''A'' broker_two)"
    by blast
  with a b c show ?thesis by simp
qed


section \<open>A failed send: removal and one requeue attempt\<close>

text \<open>
  C4 (as the code has it). When the send of a record fails inside \<^verbatim>\<open>Subscribe\<close>, the call
  returns that error to its own caller, the subscriber is no longer registered, and the
  record is offered to the inbound queue once, without blocking: if the queue has room
  the record is appended and \<^verbatim>\<open>messages_requeued_total\<close> grows by one; if the queue is
  full the queue and \<^verbatim>\<open>messages_requeued_total\<close> stay as they were. In both cases the
  other counters of the broker are unchanged, so a dropped record is counted nowhere.
  A later \<^verbatim>\<open>PublishBatch\<close> of a batch that is not \<^verbatim>\<open>nil\<close> still returns a response and no
  error.
\<close>

theorem C4_send_failure_requeue:
  "send m = Some err \<Longrightarrow>
   \<exists>s'. Subscribe_msg sub_id send (Some m) s = (Returned (Some err), s') \<and>
     subs s' = filter (\<lambda>sub. id' sub \<noteq> sub_id) (subs s) \<and>
     (if length (buf (inbound s)) < cap (inbound s)
      then buf (inbound s') = buf (inbound s) @ [Some m] \<and>
           metricRequeued s' = metricRequeued s + 1
      else buf (inbound s') = buf (inbound s) \<and>
           metricRequeued s' = metricRequeued s) \<and>
     metricEnqueued s' = metricEnqueued s \<and>
     metricDelivered s' = metricDelivered s \<and>
     metricBackpressure s' = metricBackpressure s \<and>
     (\<forall>b. \<exists>resp s''. PublishBatch (Some b) s' = (Inr resp, s''))"
proof -
  assume f: "send m = Some err"
  have pub: "\<exists>resp s''. PublishBatch (Some b) t = (Inr resp, s'')" for b and t :: "'a Server"
    by (simp add: PublishBatch_char Let_def)
  show ?thesis
    by (simp add: Subscribe_msg_failure [of send m err, OF f] pub)
qed

text \<open>The requeue test: the stream of \<open>E\<close> fails on \<open>g0\<close> while the inbound queue has room;
  \<open>g0\<close> is back in the inbound queue, counted, and \<open>K\<close> stays registered.\<close>

theorem C4_send_failure_requeue_witness:
  "fst (Subscribe_msg ''E'' errStream_Send (Some ''g0'') broker_EK) =
     Returned (Some ''context canceled'') \<and>
   map id' (subs (snd (Subscribe_msg ''E'' errStream_Send (Some ''g0'') broker_EK))) = [''K''] \<and>
   buf (inbound (snd (Subscribe_msg ''E'' errStream_Send (Some ''g0'') broker_EK))) =
     [Some ''g0''] \<and>
   metricRequeued (snd (Subscribe_msg ''E'' errStream_Send (Some ''g0'') broker_EK)) = 1"
proof -
  have f: "errStream_Send ''g0'' = Some ''context canceled''"
    by (simp add: errStream_Send_def)
  obtain s' where
    run: "Subscribe_msg ''E'' errStream_Send (Some ''g0'') broker_EK =
            (Returned (Some ''context canceled''), s')" and
    l: "subs s' = filter (\<lambda>sub. id' sub \<noteq> ''E'') (subs broker_EK)" and
    q: "if length (buf (inbound broker_EK)) < cap (inbound broker_EK)
        then buf (inbound s') = buf (inbound broker_EK) @ [Some ''g0''] \<and>
             metricRequeued s' = metricRequeued broker_EK + 1
        else buf (inbound s') = buf (inbound broker_EK) \<and>
             metricRequeued s' = metricRequeued broker_EK"
    using C4_send_failure_requeue
      [of errStream_Send "''g0''" "''context canceled''" "''E''" broker_EK, OF f]
    by blast
  have "map id' (subs s') = [''K'']"
    using l by (simp add: broker_eval)
  moreover have "buf (inbound s') = [Some ''g0''] \<and> metricRequeued s' = 1"
    using q by (simp add: broker_eval)
  ultimately show ?thesis by (simp add: run)
qed

text \<open>\<open>broker_full\<close> is reached by a run: \<open>E\<close> subscribes, \<open>g0\<close> is published and
  dispatched, \<open>g1\<close> is published.\<close>

lemma broker_full_reached:
  "Option.bind
     (dispatcher (snd (PublishBatch (Some batch_g0) (Subscribe_begin ''E'' (NewServer 1 1)))))
     (\<lambda>s. Some (snd (PublishBatch (Some \<lparr>Items = [Some ''g1'']\<rparr>) s))) =
   Some broker_full"
  by (simp add: PublishBatch_def dispatcher.simps dispatch_msg.simps dispatch_attempt_def
        dispatch_try_def snapshotSubs_def upt_rec broker_eval)

text \<open>
  The drop is not counted. In \<open>broker_full\<close> the subscriber \<open>E\<close> receives \<open>g0\<close> from its
  buffer and the send fails while the inbound queue is full: \<open>g0\<close> is in no queue
  afterwards, and each of the four counters has the value it had before.
\<close>

theorem C4_drop_not_counted_counterexample:
  "fst (Subscribe_step ''E'' RecvMsg errStream_Send broker_full) =
     Returned (Some ''context canceled'') \<and>
   subs (snd (Subscribe_step ''E'' RecvMsg errStream_Send broker_full)) = [] \<and>
   buf (inbound (snd (Subscribe_step ''E'' RecvMsg errStream_Send broker_full))) =
     [Some ''g1''] \<and>
   metricRequeued (snd (Subscribe_step ''E'' RecvMsg errStream_Send broker_full)) =
     metricRequeued broker_full \<and>
   metricEnqueued (snd (Subscribe_step ''E'' RecvMsg errStream_Send broker_full)) =
     metricEnqueued broker_full \<and>
   metricDelivered (snd (Subscribe_step ''E'' RecvMsg errStream_Send broker_full)) =
     metricDelivered broker_full \<and>
   metricBackpressure (snd (Subscribe_step ''E'' RecvMsg errStream_Send broker_full)) =
     metricBackpressure broker_full"
  by (simp add: Subscribe_step_def broker_full_def
        Subscribe_msg_failure [of errStream_Send "''g0''" "''context canceled''"]
        errStream_Send_def)

section \<open>The dispatcher hands a record to every subscriber that has room\<close>

lemmas dispatch_eval =
  PublishBatch_def dispatcher.simps dispatch_msg.simps dispatch_attempt_def dispatch_try_def
  snapshotSubs_def upt_rec

text \<open>
  The indices \<open>(start + i) mod n\<close> for \<open>i < n\<close> are all different and reach every
  position, so one pass of the inner loop visits every subscriber once.
\<close>

lemma mod_shift_distinct:
  fixes a i k n :: nat
  assumes "i < k" and "k < n"
  shows "(a + i) mod n \<noteq> (a + k) mod n"
proof
  assume "(a + i) mod n = (a + k) mod n"
  then have "(a + k) mod n = (a + i) mod n" by simp
  moreover have "a + i \<le> a + k" using assms(1) by simp
  ultimately have "n dvd (a + k) - (a + i)" by (simp add: mod_eq_dvd_iff_nat)
  then have "n dvd k - i" by simp
  moreover have "0 < k - i" "k - i < n" using assms by simp_all
  ultimately show False by (simp add: nat_dvd_not_less)
qed

lemma mod_shift_onto:
  fixes a j n :: nat
  assumes "j < n"
  shows "\<exists>i<n. j = (a + i) mod n"
proof -
  let ?i = "(j + (n - a mod n)) mod n"
  have "(a + ?i) mod n = (a mod n + (j + (n - a mod n))) mod n"
    by (simp add: mod_simps)
  also have "a mod n + (j + (n - a mod n)) = j + n"
  proof -
    have "a mod n < n" using assms by simp
    then show ?thesis by arith
  qed
  also have "(j + n) mod n = j"
    using assms by simp
  finally have "j = (a + ?i) mod n" by simp
  moreover have "?i < n" using assms by simp
  ultimately show ?thesis by blast
qed


text \<open>
  Hence, when every subscriber has room, one pass appends the record to the buffer of
  every subscriber and leaves the cursor where it started; and a dispatcher that finds
  \<open>K\<close> records in the inbound queue and subscribers with room for \<open>K\<close> records each
  appends all \<open>K\<close> records to every buffer.
\<close>

lemma dispatch_try_room:
  assumes "idx = (start + i) mod n" and "idx < length (subs s)"
    and "has_room (subs s ! idx) 1"
  shows "dispatch_try msg start n i (s, d) =
     (s\<lparr>subs := (subs s)[idx := offer [msg] (subs s ! idx)], next' := (idx + 1) mod n\<rparr>, True)"
  using assms
  by (simp add: dispatch_try_def snapshotSubs_def try_send_def has_room_def offer_def Let_def)

lemma fold_dispatch_try:
  assumes n: "n = length (subs s)" and room: "\<forall>sub \<in> set (subs s). has_room sub 1"
  shows "k \<le> n \<Longrightarrow>
     fold (dispatch_try msg start n) [0..<k] (s, False) =
       (s\<lparr>subs := map (\<lambda>j. if \<exists>i<k. j = (start + i) mod n
                             then offer [msg] (subs s ! j) else subs s ! j) [0..<n],
          next' := (if k = 0 then next' s else (start + k) mod n)\<rparr>, 0 < k)"
proof (induction k)
  case 0
  show ?case by (simp add: n map_nth)
next
  case (Suc k)
  then have kn: "k < n" by simp
  let ?f = "\<lambda>k j. if \<exists>i<k. j = (start + i) mod n then offer [msg] (subs s ! j) else subs s ! j"
  let ?sk = "s\<lparr>subs := map (?f k) [0..<n],
               next' := (if k = 0 then next' s else (start + k) mod n)\<rparr>"
  let ?idx = "(start + k) mod n"
  have idx: "?idx < n" using kn by simp
  have fresh: "\<not> (\<exists>i<k. ?idx = (start + i) mod n)"
    using mod_shift_distinct [of _ k n start] kn by metis
  have sel: "subs ?sk ! ?idx = subs s ! ?idx"
    using idx fresh by auto
  have "has_room (subs s ! ?idx) 1"
    using room idx n by simp
  then have room': "has_room (subs ?sk ! ?idx) 1"
    by (simp only: sel)
  have len: "?idx < length (subs ?sk)" using idx by simp
  have step: "dispatch_try msg start n k (?sk, 0 < k) =
      (?sk\<lparr>subs := (subs ?sk)[?idx := offer [msg] (subs ?sk ! ?idx)],
            next' := (?idx + 1) mod n\<rparr>, True)"
    by (rule dispatch_try_room [OF refl len room'])
  have upd: "(map (?f k) [0..<n])[?idx := offer [msg] (subs s ! ?idx)] = map (?f (Suc k)) [0..<n]"
  proof (rule nth_equalityI)
    show "length ((map (?f k) [0..<n])[?idx := offer [msg] (subs s ! ?idx)]) =
          length (map (?f (Suc k)) [0..<n])" by simp
  next
    fix j
    assume "j < length ((map (?f k) [0..<n])[?idx := offer [msg] (subs s ! ?idx)])"
    then have jn: "j < n" by simp
    show "(map (?f k) [0..<n])[?idx := offer [msg] (subs s ! ?idx)] ! j =
          map (?f (Suc k)) [0..<n] ! j"
    proof (cases "j = ?idx")
      case True
      then show ?thesis using jn by auto
    next
      case False
      have "(\<exists>i<Suc k. j = (start + i) mod n) \<longleftrightarrow> (\<exists>i<k. j = (start + i) mod n)"
        using False by (auto simp: less_Suc_eq)
      then show ?thesis using jn False by simp
    qed
  qed
  have nx: "(?idx + 1) mod n = (start + Suc k) mod n"
    by (simp add: mod_simps)
  have "fold (dispatch_try msg start n) [0..<Suc k] (s, False) =
        dispatch_try msg start n k (?sk, 0 < k)"
    using Suc.IH kn by simp
  also have "\<dots> = (?sk\<lparr>subs := (subs ?sk)[?idx := offer [msg] (subs ?sk ! ?idx)],
                       next' := (?idx + 1) mod n\<rparr>, True)"
    by (rule step)
  also have "\<dots> = (s\<lparr>subs := map (?f (Suc k)) [0..<n],
                      next' := (start + Suc k) mod n\<rparr>, True)"
    using upd nx sel by simp
  finally show ?case by simp
qed

lemma dispatch_attempt_all_ready:
  assumes "subs s \<noteq> []" and "\<forall>sub \<in> set (subs s). has_room sub 1"
  shows "dispatch_attempt msg s =
     (s\<lparr>subs := map (offer [msg]) (subs s), next' := next' s mod length (subs s)\<rparr>, True)"
proof -
  let ?n = "length (subs s)"
  have pos: "0 < ?n" using assms(1) by simp
  have all: "map (\<lambda>j. if \<exists>i<?n. j = (next' s + i) mod ?n
                       then offer [msg] (subs s ! j) else subs s ! j) [0..<?n] =
        map (offer [msg]) (subs s)"
  proof (rule nth_equalityI)
    show "length (map (\<lambda>j. if \<exists>i<?n. j = (next' s + i) mod ?n
                       then offer [msg] (subs s ! j) else subs s ! j) [0..<?n]) =
          length (map (offer [msg]) (subs s))" by simp
  next
    fix j
    assume "j < length (map (\<lambda>j. if \<exists>i<?n. j = (next' s + i) mod ?n
                       then offer [msg] (subs s ! j) else subs s ! j) [0..<?n])"
    then have jn: "j < ?n" by simp
    then have "\<exists>i<?n. j = (next' s + i) mod ?n" by (rule mod_shift_onto)
    then show "map (\<lambda>j. if \<exists>i<?n. j = (next' s + i) mod ?n
                       then offer [msg] (subs s ! j) else subs s ! j) [0..<?n] ! j =
          map (offer [msg]) (subs s) ! j"
      using jn by simp
  qed
  show ?thesis
    using fold_dispatch_try [OF refl assms(2), of ?n msg "next' s"] pos
    by (simp add: dispatch_attempt_def snapshotSubs_def Let_def all)
qed


lemma dispatch_msg_all_ready:
  assumes "subs s \<noteq> []" and "\<forall>sub \<in> set (subs s). has_room sub 1"
  shows "dispatch_msg msg s =
     Some (s\<lparr>subs := map (offer [msg]) (subs s), next' := next' s mod length (subs s)\<rparr>)"
  using assms
  by (subst dispatch_msg.simps) (simp add: dispatch_attempt_all_ready snapshotSubs_def)

lemma offer_offer: "offer ys (offer xs sub) = offer (xs @ ys) sub"
  by (simp add: offer_def)

lemma has_room_offer: "has_room (offer xs sub) k = has_room sub (length xs + k)"
  by (simp add: has_room_def offer_def add.assoc)

lemma dispatcher_all_ready:
  "buf (inbound s) = msgs \<Longrightarrow> subs s \<noteq> [] \<Longrightarrow>
   \<forall>sub \<in> set (subs s). has_room sub (length msgs) \<Longrightarrow>
   dispatcher s =
     Some (s\<lparr>inbound := (inbound s)\<lparr>buf := []\<rparr>,
            subs := map (offer msgs) (subs s),
            next' := (if msgs = [] then next' s else next' s mod length (subs s))\<rparr>)"
proof (induction msgs arbitrary: s)
  case Nil
  have "map (offer []) (subs s) = subs s"
    by (simp add: offer_def map_idI)
  moreover have "(inbound s)\<lparr>buf := []\<rparr> = inbound s"
    using Nil.prems(1) by simp
  ultimately show ?case
    using Nil.prems(1) by (subst dispatcher.simps) simp
next
  case (Cons m rest)
  let ?s1 = "s\<lparr>inbound := (inbound s)\<lparr>buf := rest\<rparr>\<rparr>"
  let ?s2 = "?s1\<lparr>subs := map (offer [m]) (subs s), next' := next' s mod length (subs s)\<rparr>"
  have room1: "\<forall>sub \<in> set (subs ?s1). has_room sub 1"
    using Cons.prems(3) by (auto simp: has_room_def)
  have d1: "dispatch_msg m ?s1 = Some ?s2"
    using dispatch_msg_all_ready [of ?s1 m] room1 Cons.prems(2) by simp
  have room2: "\<forall>sub \<in> set (subs ?s2). has_room sub (length rest)"
    using Cons.prems(3) by (auto simp: has_room_offer)
  have d2: "dispatcher ?s2 =
      Some (?s2\<lparr>inbound := (inbound ?s2)\<lparr>buf := []\<rparr>,
                subs := map (offer rest) (subs ?s2),
                next' := (if rest = [] then next' ?s2 else next' ?s2 mod length (subs ?s2))\<rparr>)"
    using Cons.IH [of ?s2] room2 Cons.prems(2) by simp
  have "dispatcher s = Option.bind (dispatch_msg m ?s1) dispatcher"
    using Cons.prems(1) by (subst dispatcher.simps) simp
  also have "\<dots> = dispatcher ?s2" by (simp add: d1)
  finally show ?case
    by (simp add: d2 offer_offer comp_def)
qed

text \<open>
  C2. Two subscribers with empty buffers, one record \<open>g0\<close> in the inbound queue, no send
  fails. After the dispatcher has handled the record, it is in the buffer of \<open>A\<close> and in
  the buffer of \<open>B\<close>: in two buffers, not in exactly one.
\<close>

theorem C2_record_in_both_buffers:
  "map_option (\<lambda>s. map (\<lambda>sub. (id' sub, buf (ch sub))) (subs s))
     (dispatcher (snd (PublishBatch (Some batch_g0) broker_two))) =
   Some [(''A'', [Some ''g0'']), (''B'', [Some ''g0''])]"
  by (simp add: dispatch_eval broker_eval)

text \<open>
  C3. Two subscribers whose buffers never fill, two records \<open>g0\<close> and \<open>g1\<close>. Each
  subscriber receives both records, where round-robin delivery gives each of them one
  (the floor and the ceiling of 2 / 2), and the cursor is 0 after each record, where
  round-robin moves it past the first subscriber that accepted.
\<close>

theorem C3_every_subscriber_gets_every_record:
  "map_option (\<lambda>s. (map (\<lambda>sub. (id' sub, buf (ch sub))) (subs s), next' s))
     (dispatcher (snd (PublishBatch (Some batch_g0g1) broker_two))) =
   Some ([(''A'', [Some ''g0'', Some ''g1'']), (''B'', [Some ''g0'', Some ''g1''])], 0)"
  by (simp add: dispatch_eval broker_eval)


section \<open>Only valid messages enter a batch\<close>

lemmas trim_eval =
  TrimSpace_def TrimLeft.simps TrimRight.simps leading_space_def trailing_space_def
  space_runes_def stringsTrim_def

text \<open>The trimming on examples: blanks only, white space around an id, a no-break
  space followed by an ideographic space, a blank inside an id, and an id followed by a
  line separator and a carriage return.\<close>

lemma TrimSpace_examples:
  "TrimSpace ''   '' = []"
  "TrimSpace [CHR 0x20, CHR ''g'', CHR ''1'', CHR 0x09, CHR 0x0A] = ''g1''"
  "TrimSpace [CHR 0xC2, CHR 0xA0, CHR 0xE3, CHR 0x80, CHR 0x80] = []"
  "TrimSpace ''a b'' = ''a b''"
  "TrimSpace [CHR ''g'', CHR ''1'', CHR 0xE2, CHR 0x80, CHR 0xA8, CHR 0x0D] = ''g1''"
  by (simp_all add: trim_eval)

lemma validate_iff:
  "validate m \<longleftrightarrow> (\<exists>d. m = Some d \<and> TrimSpace (GpuId d) \<noteq> [] \<and> Ts d \<noteq> None)"
  by (cases m) (auto simp: validate_def stringsTrim_def GetGpuId_def GetTs_def)

lemma validate_examples:
  "validate msg_ok" "\<not> validate msg_blank" "\<not> validate msg_no_ts" "\<not> validate None"
  by (simp_all add: validate_def msg_ok_def msg_blank_def msg_no_ts_def GetGpuId_def
        GetTs_def trim_eval)

lemma taken_flush: "taken (flush c) = taken c"
  by (simp add: taken_def flush_def)

lemma dropped_flush: "metricDroppedInvalid (flush c) = metricDroppedInvalid c"
  by (simp add: flush_def)

lemma loop_step_Recv_valid:
  "validate m \<Longrightarrow>
     fst (loop_step bs (Recv m) c) = Looping \<and>
     taken (snd (loop_step bs (Recv m) c)) = taken c @ [toModel m] \<and>
     metricDroppedInvalid (snd (loop_step bs (Recv m) c)) = metricDroppedInvalid c \<and>
     metricBatched (snd (loop_step bs (Recv m) c)) = metricBatched c + 1"
  by (simp add: Let_def taken_def flush_def)

lemma loop_step_Recv_invalid:
  "\<not> validate m \<Longrightarrow>
     loop_step bs (Recv m) c =
       (Looping, c\<lparr>metricReceived := metricReceived c + 1,
                   metricDroppedInvalid := metricDroppedInvalid c + 1\<rparr>)"
  by (simp add: Let_def)

lemma run_taken:
  "taken (snd (runCollectorLoop bs evs c)) =
     taken c @ map toModel (filter validate (received evs)) \<and>
   metricDroppedInvalid (snd (runCollectorLoop bs evs c)) =
     metricDroppedInvalid c + length (filter (\<lambda>m. \<not> validate m) (received evs))"
proof (induction evs arbitrary: c)
  case Nil
  show ?case by simp
next
  case (Cons e evs)
  show ?case
  proof (cases e)
    case Done
    then show ?thesis by (simp add: final_flush_def taken_def flush_def)
  next
    case Tick
    then show ?thesis by (simp add: Cons.IH taken_flush dropped_flush)
  next
    case (RecvErr err)
    then show ?thesis by (simp add: final_flush_def taken_def flush_def)
  next
    case (Recv m)
    show ?thesis
    proof (cases "validate m")
      case True
      from loop_step_Recv_valid [OF True, of bs c] obtain c' where
        st: "loop_step bs (Recv m) c = (Looping, c')" and
        t: "taken c' = taken c @ [toModel m]" and
        d: "metricDroppedInvalid c' = metricDroppedInvalid c"
        by (cases "loop_step bs (Recv m) c") auto
      show ?thesis using True by (simp add: Recv st Cons.IH t d del: loop_step.simps)
    next
      case False
      have "taken (c\<lparr>metricReceived := metricReceived c + 1,
                       metricDroppedInvalid := metricDroppedInvalid c + 1\<rparr>) = taken c"
        by (simp add: taken_def)
      then show ?thesis using False
        by (simp add: Recv loop_step_Recv_invalid [OF False] Cons.IH del: loop_step.simps)
    qed
  qed
qed

lemma run_exit_batch_empty:
  "fst (runCollectorLoop bs evs c) = Exited r \<Longrightarrow> batch (snd (runCollectorLoop bs evs c)) = []"
proof (induction evs arbitrary: c)
  case Nil
  then show ?case by simp
next
  case (Cons e evs)
  show ?case
  proof (cases "loop_step bs e c")
    case (Pair res c')
    show ?thesis
    proof (cases res)
      case Looping
      with Pair Cons show ?thesis by simp
    next
      case (Exited x)
      with Pair have "batch c' = []"
        by (cases e) (auto simp: final_flush_def flush_def Let_def split: if_splits)
      with Pair Exited show ?thesis by simp
    qed
  qed
qed

text \<open>With the recording store, what the workers pass to \<^verbatim>\<open>SaveTelemetry\<close> is the content
  of the jobs, in order.\<close>

lemma worker_job_capture:
  "fst (worker_job (captureStore_SaveTelemetry False) items (st, c)) = st @ items"
  by (induction items arbitrary: st c) (simp_all add: captureStore_SaveTelemetry_def)

lemma fold_worker_capture:
  "fst (fold (worker_job (captureStore_SaveTelemetry False)) js (st, c)) = st @ concat js"
proof (induction js arbitrary: st c)
  case Nil
  show ?case by simp
next
  case (Cons j js)
  obtain st' c' where w: "worker_job (captureStore_SaveTelemetry False) j (st, c) = (st', c')"
    by (cases "worker_job (captureStore_SaveTelemetry False) j (st, c)")
  with worker_job_capture [of j st c] have "st' = st @ j" by simp
  with w show ?case by (simp add: Cons.IH)
qed

lemma run_workers_capture:
  "fst (run_workers (captureStore_SaveTelemetry False) ([], c)) = concat (jobs c)"
  by (simp add: run_workers_def fold_worker_capture)

text \<open>
  C5. A message is valid exactly when it is not \<^verbatim>\<open>nil\<close>, its GPU id trimmed of white space
  is not empty, and its timestamp is present. When the loop receives a valid message,
  its record is appended to what the loop keeps (the batch, or the job the batch is
  flushed into) and the invalid counter stays; when it receives an invalid message, the
  batch and the jobs are unchanged and \<^verbatim>\<open>messages_dropped_invalid_total\<close> grows by one.
  Over a whole run, from any state and with any batch size, the records kept are those
  kept before followed by the records of exactly the valid messages received, in order,
  and the counter has grown by the number of invalid ones. Run from the start against
  a store that records its calls, the workers pass to \<^verbatim>\<open>SaveTelemetry\<close> only records of
  valid messages: what they pass, followed by the batch not yet flushed, is the records
  of the valid messages; and once the loop has exited the batch is empty.
\<close>

theorem C5_only_valid_messages_batched:
  "(validate m \<longleftrightarrow> (\<exists>d. m = Some d \<and> TrimSpace (GpuId d) \<noteq> [] \<and> Ts d \<noteq> None)) \<and>
   (validate m \<longrightarrow>
      fst (loop_step bs (Recv m) c) = Looping \<and>
      taken (snd (loop_step bs (Recv m) c)) = taken c @ [toModel m] \<and>
      metricDroppedInvalid (snd (loop_step bs (Recv m) c)) = metricDroppedInvalid c) \<and>
   (\<not> validate m \<longrightarrow>
      fst (loop_step bs (Recv m) c) = Looping \<and>
      batch (snd (loop_step bs (Recv m) c)) = batch c \<and>
      jobs (snd (loop_step bs (Recv m) c)) = jobs c \<and>
      metricDroppedInvalid (snd (loop_step bs (Recv m) c)) = metricDroppedInvalid c + 1) \<and>
   taken (snd (runCollectorLoop bs evs c)) =
     taken c @ map toModel (filter validate (received evs)) \<and>
   metricDroppedInvalid (snd (runCollectorLoop bs evs c)) =
     metricDroppedInvalid c + length (filter (\<lambda>m. \<not> validate m) (received evs)) \<and>
   fst (run_workers (captureStore_SaveTelemetry False)
          ([], snd (runCollectorLoop bs evs new_collector))) @
     batch (snd (runCollectorLoop bs evs new_collector)) =
     map toModel (filter validate (received evs)) \<and>
   (\<forall>r. fst (runCollectorLoop bs evs new_collector) = Exited r \<longrightarrow>
      batch (snd (runCollectorLoop bs evs new_collector)) = [])"
proof (intro conjI impI allI)
  show "validate m \<longleftrightarrow> (\<exists>d. m = Some d \<and> TrimSpace (GpuId d) \<noteq> [] \<and> Ts d \<noteq> None)"
    by (rule validate_iff)
  show "fst (loop_step bs (Recv m) c) = Looping" if "validate m"
    using loop_step_Recv_valid [OF that] by blast
  show "taken (snd (loop_step bs (Recv m) c)) = taken c @ [toModel m]" if "validate m"
    using loop_step_Recv_valid [OF that] by blast
  show "metricDroppedInvalid (snd (loop_step bs (Recv m) c)) = metricDroppedInvalid c"
    if "validate m"
    using loop_step_Recv_valid [OF that] by blast
  show "fst (loop_step bs (Recv m) c) = Looping" if "\<not> validate m"
    by (simp add: loop_step_Recv_invalid [OF that] del: loop_step.simps)
  show "batch (snd (loop_step bs (Recv m) c)) = batch c" if "\<not> validate m"
    by (simp add: loop_step_Recv_invalid [OF that] del: loop_step.simps)
  show "jobs (snd (loop_step bs (Recv m) c)) = jobs c" if "\<not> validate m"
    by (simp add: loop_step_Recv_invalid [OF that] del: loop_step.simps)
  show "metricDroppedInvalid (snd (loop_step bs (Recv m) c)) = metricDroppedInvalid c + 1"
    if "\<not> validate m"
    by (simp add: loop_step_Recv_invalid [OF that] del: loop_step.simps)
  show "taken (snd (runCollectorLoop bs evs c)) =
      taken c @ map toModel (filter validate (received evs))"
    using run_taken by blast
  show "metricDroppedInvalid (snd (runCollectorLoop bs evs c)) =
      metricDroppedInvalid c + length (filter (\<lambda>m. \<not> validate m) (received evs))"
    using run_taken by blast
  show "fst (run_workers (captureStore_SaveTelemetry False)
          ([], snd (runCollectorLoop bs evs new_collector))) @
     batch (snd (runCollectorLoop bs evs new_collector)) =
     map toModel (filter validate (received evs))"
    using run_taken [of bs evs new_collector]
    by (simp add: run_workers_capture taken_def new_collector_def)
  show "batch (snd (runCollectorLoop bs evs new_collector)) = []"
    if "fst (runCollectorLoop bs evs new_collector) = Exited r" for r
    using that by (rule run_exit_batch_empty)
qed

text \<open>The example stream with batch size 3: five messages, two of them valid; the store is
  given the two valid records and the invalid counter is 3.\<close>

theorem C5_only_valid_messages_batched_witness:
  "fst (run_workers (captureStore_SaveTelemetry False)
          ([], snd (runCollectorLoop 3 stream_example new_collector))) =
     [toModel msg_ok, toModel msg_ok] \<and>
   metricDroppedInvalid (snd (runCollectorLoop 3 stream_example new_collector)) = 3"
proof -
  note w = C5_only_valid_messages_batched [of msg_ok 3 new_collector stream_example]
  have exit: "fst (runCollectorLoop 3 stream_example new_collector) =
      Exited (Some ''recv: stream closed'')"
    by (simp add: stream_example_def validate_examples new_collector_def flush_def
          final_flush_def Let_def)
  have rcv: "received stream_example = [msg_ok, msg_blank, None, msg_no_ts, msg_ok]"
    by (simp add: stream_example_def)
  from w exit have "batch (snd (runCollectorLoop 3 stream_example new_collector)) = []"
    by blast
  moreover from w have
    "fst (run_workers (captureStore_SaveTelemetry False)
          ([], snd (runCollectorLoop 3 stream_example new_collector))) @
     batch (snd (runCollectorLoop 3 stream_example new_collector)) =
     map toModel (filter validate (received stream_example))"
    by blast
  moreover from w have
    "metricDroppedInvalid (snd (runCollectorLoop 3 stream_example new_collector)) =
     metricDroppedInvalid new_collector +
       length (filter (\<lambda>m. \<not> validate m) (received stream_example))"
    by blast
  ultimately show ?thesis
    by (simp add: rcv validate_examples new_collector_def)
qed


section \<open>The in-memory store never fails a save\<close>

lemma worker_job_memory:
  "metricFlushErrors (snd (worker_job SaveTelemetry items (m, c))) = metricFlushErrors c \<and>
   metricFlushed (snd (worker_job SaveTelemetry items (m, c))) = metricFlushed c + length items \<and>
   fst (worker_job SaveTelemetry items (m, c)) = save_all m items"
  by (induction items arbitrary: m c) (simp_all add: SaveTelemetry_def Let_def save_all_def)

lemma fold_worker_memory:
  "metricFlushErrors (snd (fold (worker_job SaveTelemetry) js (m, c))) = metricFlushErrors c \<and>
   metricFlushed (snd (fold (worker_job SaveTelemetry) js (m, c))) =
     metricFlushed c + length (concat js) \<and>
   fst (fold (worker_job SaveTelemetry) js (m, c)) = save_all m (concat js)"
proof (induction js arbitrary: m c)
  case Nil
  show ?case by (simp add: save_all_def)
next
  case (Cons j js)
  obtain m' c' where w: "worker_job SaveTelemetry j (m, c) = (m', c')"
    by (cases "worker_job SaveTelemetry j (m, c)")
  with worker_job_memory [of j m c] have
    "metricFlushErrors c' = metricFlushErrors c"
    "metricFlushed c' = metricFlushed c + length j"
    "m' = save_all m j"
    by simp_all
  with w show ?case by (simp add: Cons.IH save_all_def)
qed

lemma loop_step_flush_errors:
  "metricFlushErrors (snd (loop_step bs e c)) = metricFlushErrors c"
  by (cases e) (simp_all add: flush_def final_flush_def Let_def)

lemma run_flush_errors:
  "metricFlushErrors (snd (runCollectorLoop bs evs c)) = metricFlushErrors c"
proof (induction evs arbitrary: c)
  case Nil
  show ?case by simp
next
  case (Cons e evs)
  obtain res c' where st: "loop_step bs e c = (res, c')"
    by (cases "loop_step bs e c")
  with loop_step_flush_errors [of bs e c] have "metricFlushErrors c' = metricFlushErrors c"
    by simp
  with st show ?case by (cases res) (simp_all add: Cons.IH del: loop_step.simps)
qed

text \<open>
  C10. \<^verbatim>\<open>MemoryStore.SaveTelemetry\<close> returns \<^verbatim>\<open>nil\<close> for every store and every record. So a
  worker that writes to this store never takes the error branch: after a job, and after
  all jobs, \<^verbatim>\<open>flush_errors_total\<close> has the value it had before and every record is counted
  as flushed; and the same holds after any run of the collector loop followed by the
  workers.
\<close>

theorem C10_memory_store_save_never_fails:
  "fst (SaveTelemetry m t) = None \<and>
   metricFlushErrors (snd (worker_job SaveTelemetry items (m, c))) = metricFlushErrors c \<and>
   metricFlushed (snd (worker_job SaveTelemetry items (m, c))) = metricFlushed c + length items \<and>
   metricFlushErrors (snd (run_workers SaveTelemetry (m, c))) = metricFlushErrors c \<and>
   metricFlushed (snd (run_workers SaveTelemetry (m, c))) =
     metricFlushed c + length (concat (jobs c)) \<and>
   metricFlushErrors (snd (run_workers SaveTelemetry (m, snd (runCollectorLoop bs evs c)))) =
     metricFlushErrors c"
proof (intro conjI)
  show "fst (SaveTelemetry m t) = None"
    by (simp add: SaveTelemetry_def Let_def)
  show "metricFlushErrors (snd (worker_job SaveTelemetry items (m, c))) = metricFlushErrors c"
    using worker_job_memory by blast
  show "metricFlushed (snd (worker_job SaveTelemetry items (m, c))) =
      metricFlushed c + length items"
    using worker_job_memory by blast
  show "metricFlushErrors (snd (run_workers SaveTelemetry (m, c))) = metricFlushErrors c"
    by (simp add: run_workers_def fold_worker_memory)
  show "metricFlushed (snd (run_workers SaveTelemetry (m, c))) =
      metricFlushed c + length (concat (jobs c))"
    by (simp add: run_workers_def fold_worker_memory)
  show "metricFlushErrors (snd (run_workers SaveTelemetry (m, snd (runCollectorLoop bs evs c)))) =
      metricFlushErrors c"
    by (simp add: run_workers_def fold_worker_memory run_flush_errors)
qed

text \<open>The example stream written to an empty in-memory store: no flush error, two
  records flushed.\<close>

theorem C10_memory_store_save_never_fails_witness:
  "metricFlushErrors
     (snd (run_workers SaveTelemetry
        (NewMemoryStore, snd (runCollectorLoop 3 stream_example new_collector)))) = 0 \<and>
   metricFlushed
     (snd (run_workers SaveTelemetry
        (NewMemoryStore, snd (runCollectorLoop 3 stream_example new_collector)))) = 2"
proof -
  note w = C10_memory_store_save_never_fails
    [of NewMemoryStore "rec_at ''g1'' 0" "[]"
        "snd (runCollectorLoop 3 stream_example new_collector)" 3 stream_example]
  have c: "snd (runCollectorLoop 3 stream_example new_collector) =
      new_collector\<lparr>jobs := [[toModel msg_ok], [toModel msg_ok]], jobs_closed := True,
        metricReceived := 5, metricBatched := 2, metricDroppedInvalid := 3\<rparr>"
    by (simp add: stream_example_def validate_examples new_collector_def flush_def
          final_flush_def Let_def)
  from w have
    e: "metricFlushErrors (snd (run_workers SaveTelemetry
          (NewMemoryStore, snd (runCollectorLoop 3 stream_example new_collector)))) =
        metricFlushErrors (snd (runCollectorLoop 3 stream_example new_collector))" and
    f: "metricFlushed (snd (run_workers SaveTelemetry
          (NewMemoryStore, snd (runCollectorLoop 3 stream_example new_collector)))) =
        metricFlushed (snd (runCollectorLoop 3 stream_example new_collector)) +
        length (concat (jobs (snd (runCollectorLoop 3 stream_example new_collector))))"
    by blast+
  have "metricFlushErrors (snd (runCollectorLoop 3 stream_example new_collector)) = 0"
    by (subst c) (simp add: new_collector_def)
  moreover
  have "metricFlushed (snd (runCollectorLoop 3 stream_example new_collector)) +
        length (concat (jobs (snd (runCollectorLoop 3 stream_example new_collector)))) = 2"
    by (subst c, subst c) (simp add: new_collector_def)
  ultimately show ?thesis
    using e f by simp
qed

section \<open>Status codes of the telemetry endpoint\<close>














end
